theory Spec2Isabelle
  imports Main "HOL-Library.Word" "HOL-Library.AList" "HOL-Library.Multiset"
begin

section \<open>Identifiers of the document store\<close>

text \<open>
  A MongoDB ObjectId is twelve bytes, compared bytewise, that is as an unsigned 96-bit
  number. Clients send ids as strings; Mongoose casts a string to an ObjectId and raises a
  CastError when the cast fails. The cast is library code: the model accepts exactly the
  strings of 24 hexadecimal digits (either case) and reads them big-endian. The method
  \<open>toString\<close> of an ObjectId prints 24 lower-case hexadecimal digits.
\<close>

type_synonym objectId = "96 word"

definition hexDigit :: "char \<Rightarrow> nat option" where
  "hexDigit c = map_of
     [(CHR ''0'', 0), (CHR ''1'', 1), (CHR ''2'', 2), (CHR ''3'', 3), (CHR ''4'', 4),
      (CHR ''5'', 5), (CHR ''6'', 6), (CHR ''7'', 7), (CHR ''8'', 8), (CHR ''9'', 9),
      (CHR ''a'', 10), (CHR ''b'', 11), (CHR ''c'', 12), (CHR ''d'', 13), (CHR ''e'', 14),
      (CHR ''f'', 15), (CHR ''A'', 10), (CHR ''B'', 11), (CHR ''C'', 12), (CHR ''D'', 13),
      (CHR ''E'', 14), (CHR ''F'', 15)] c"

definition hexChar :: "nat \<Rightarrow> char" where
  "hexChar d = ''0123456789abcdef'' ! d"

fun fromHex :: "nat \<Rightarrow> string \<Rightarrow> nat option" where
  "fromHex acc [] = Some acc"
| "fromHex acc (c # cs) =
     (case hexDigit c of None \<Rightarrow> None | Some d \<Rightarrow> fromHex (16 * acc + d) cs)"

fun toHex :: "nat \<Rightarrow> nat \<Rightarrow> string" where
  "toHex 0 n = []"
| "toHex (Suc k) n = toHex k (n div 16) @ [hexChar (n mod 16)]"

definition castObjectId :: "string \<Rightarrow> objectId option" where
  "castObjectId s = (if length s = 24 then map_option of_nat (fromHex 0 s) else None)"

definition oidToString :: "objectId \<Rightarrow> string" where
  "oidToString w = toHex 24 (unat w)"


section \<open>Documents (models/User.ts, models/Group.ts, models/Chat.ts)\<close>

text \<open>
  Of a User the server reads only \<open>_id\<close> and \<open>address\<close> (the populate calls select
  \<open>address\<close>), so the numeric fields of the schema are left out.
\<close>

record user =
  uid :: objectId
  address :: string

record "group" =
  gid :: objectId
  name :: string
  description :: "string option"
  owner :: objectId
  members :: "objectId list"
  isPrivate :: bool
  g_createdAt :: int

record chat =
  cid :: objectId
  message :: string
  sender :: objectId
  c_groupId :: objectId
  createdAt :: int
  isDeleted :: bool

text \<open>Each collection in its natural (insertion) order.\<close>

record database =
  users :: "user list"
  groups :: "group list"
  chats :: "chat list"

text \<open>A Group document after \<open>populate('owner')\<close> and \<open>populate('members')\<close>: the owner is
  null when it does not resolve, and unresolved members are dropped from the array.\<close>

record groupView =
  gv_id :: objectId
  gv_name :: string
  gv_description :: "string option"
  gv_owner :: "user option"
  gv_members :: "user list"
  gv_isPrivate :: bool
  gv_createdAt :: int

text \<open>The interface \<open>MessageType\<close> of the server.\<close>

record messageType =
  msg_id :: string
  msg_message :: string
  msg_sender_address :: string
  msg_createdAt :: int
  msg_groupId :: string

definition findUserById :: "database \<Rightarrow> objectId \<Rightarrow> user option" where
  "findUserById d i = find (\<lambda>u. uid u = i) (users d)"

definition findUserByAddress :: "database \<Rightarrow> string \<Rightarrow> user option" where
  "findUserByAddress d a = find (\<lambda>u. address u = a) (users d)"

definition findGroupById :: "database \<Rightarrow> objectId \<Rightarrow> group option" where
  "findGroupById d i = find (\<lambda>g. gid g = i) (groups d)"

definition populateGroup :: "database \<Rightarrow> group \<Rightarrow> groupView" where
  "populateGroup d g =
     \<lparr>gv_id = gid g, gv_name = name g, gv_description = description g,
      gv_owner = findUserById d (owner g),
      gv_members = List.map_filter (findUserById d) (members g),
      gv_isPrivate = isPrivate g, gv_createdAt = g_createdAt g\<rparr>"

text \<open>\<open>updateOne\<close> writes the first document that matches, as a save by \<open>_id\<close> does.\<close>

fun updateOne :: "('a \<Rightarrow> bool) \<Rightarrow> ('a \<Rightarrow> 'a) \<Rightarrow> 'a list \<Rightarrow> 'a list" where
  "updateOne P f [] = []"
| "updateOne P f (x # xs) = (if P x then f x # xs else x # updateOne P f xs)"


section \<open>The ephemeral store (Redis hashes)\<close>

text \<open>
  The store maps a key to a hash, a hash maps a field to a value; both are association
  lists read through \<open>map_of\<close>. The model does not rely on Redis dropping a hash that has
  become empty: an empty hash stays until \<open>del\<close> removes the key, which is what the
  helpers below do explicitly.
\<close>

type_synonym hash = "(string \<times> string) list"
type_synonym redisStore = "(string \<times> hash) list"

definition hgetall :: "redisStore \<Rightarrow> string \<Rightarrow> hash" where
  "hgetall r key = (case map_of r key of None \<Rightarrow> [] | Some h \<Rightarrow> h)"

definition hset :: "redisStore \<Rightarrow> string \<Rightarrow> string \<Rightarrow> string \<Rightarrow> redisStore" where
  "hset r key field v = AList.update key (AList.update field v (hgetall r key)) r"

definition hdel :: "redisStore \<Rightarrow> string \<Rightarrow> string \<Rightarrow> redisStore" where
  "hdel r key field =
     (case map_of r key of None \<Rightarrow> r | Some h \<Rightarrow> AList.update key (AList.delete field h) r)"

definition hlen :: "redisStore \<Rightarrow> string \<Rightarrow> nat" where
  "hlen r key = length (hgetall r key)"

definition del :: "redisStore \<Rightarrow> string \<Rightarrow> redisStore" where
  "del r key = AList.delete key r"

text \<open>Glob matching of \<open>KEYS\<close>, for patterns made of literal characters and \<open>*\<close>.\<close>

fun globMatch :: "string \<Rightarrow> string \<Rightarrow> bool" where
  "globMatch [] s = (s = [])"
| "globMatch (p # ps) s =
     (if p = CHR ''*''
      then globMatch ps s \<or> (case s of [] \<Rightarrow> False | _ # s' \<Rightarrow> globMatch (p # ps) s')
      else (case s of [] \<Rightarrow> False | c # s' \<Rightarrow> c = p \<and> globMatch ps s'))"

definition keys :: "redisStore \<Rightarrow> string \<Rightarrow> string list" where
  "keys r pattern = filter (globMatch pattern) (map fst r)"

subsection \<open>redisHelpers\<close>

definition groupKey :: "string \<Rightarrow> string" where
  "groupKey groupId = ''group:'' @ groupId @ '':users''"

definition addUserToGroup :: "redisStore \<Rightarrow> string \<Rightarrow> string \<Rightarrow> string \<Rightarrow> redisStore" where
  "addUserToGroup r groupId socketId userAddress = hset r (groupKey groupId) socketId userAddress"

definition removeFromKey :: "string \<Rightarrow> string \<Rightarrow> redisStore \<Rightarrow> redisStore" where
  "removeFromKey socketId key r =
     (let r1 = hdel r key socketId;
          remaining = hlen r1 key
      in if remaining = 0 then del r1 key else r1)"

definition removeUserFromGroup :: "redisStore \<Rightarrow> string \<Rightarrow> string \<Rightarrow> redisStore" where
  "removeUserFromGroup r groupId socketId = removeFromKey socketId (groupKey groupId) r"

definition getGroupUsers :: "redisStore \<Rightarrow> string \<Rightarrow> hash" where
  "getGroupUsers r groupId = hgetall r (groupKey groupId)"

definition addUserConnection :: "redisStore \<Rightarrow> string \<Rightarrow> string \<Rightarrow> redisStore" where
  "addUserConnection r socketId userAddress = hset r ''user_connections'' socketId userAddress"

definition removeUserConnection :: "redisStore \<Rightarrow> string \<Rightarrow> redisStore" where
  "removeUserConnection r socketId = hdel r ''user_connections'' socketId"

definition cleanup :: "redisStore \<Rightarrow> string \<Rightarrow> redisStore" where
  "cleanup r socketId =
     (let groupKeys = keys r ''group:*:users'';
          r' = fold (removeFromKey socketId) groupKeys r
      in hdel r' ''user_connections'' socketId)"


section \<open>The server (Socket.IO handlers)\<close>

text \<open>
  The state is everything the handlers read or write: the document store, the ephemeral
  store, the rooms of the transport (pairs of a socket id and a room), the connected
  sockets with their \<open>socket.data.user\<close>, and the events emitted so far, each with the
  socket that receives it. A handler is modelled as running from start to end without
  another handler in between, and a store call fails only where a cast, a validation or a
  duplicate \<open>_id\<close> makes it fail. The handler of \<open>joinGroup\<close> reads a document and writes
  it back across two awaits, so it is given a second time below, await by await.
\<close>

datatype serverEvent =
    MessageEvent messageType
  | ConnectionEstablished string
  | ErrorEvent string

record server =
  db :: database
  redis :: redisStore
  rooms :: "(string \<times> string) list"
  sockets :: "(string \<times> user) list"
  emitted :: "(string \<times> serverEvent) list"

record createGroupData =
  cg_name :: string
  cg_description :: "string option"

record sendMessageData =
  sm_groupId :: string
  sm_message :: string

record loadMessagesData =
  lm_groupId :: string
  lm_before :: "string option"

subsection \<open>Rooms of the transport\<close>

definition socketJoin :: "(string \<times> string) list \<Rightarrow> string \<Rightarrow> string \<Rightarrow> (string \<times> string) list" where
  "socketJoin rs socketId room = (if (socketId, room) \<in> set rs then rs else rs @ [(socketId, room)])"

definition socketLeave :: "(string \<times> string) list \<Rightarrow> string \<Rightarrow> string \<Rightarrow> (string \<times> string) list" where
  "socketLeave rs socketId room = removeAll (socketId, room) rs"

definition roomSockets :: "(string \<times> string) list \<Rightarrow> string \<Rightarrow> string list" where
  "roomSockets rs room = map fst (filter (\<lambda>sr. snd sr = room) rs)"

subsection \<open>Handshake\<close>

definition authMiddleware :: "database \<Rightarrow> string option \<Rightarrow> string + user" where
  "authMiddleware d token =
     (case token of
        None \<Rightarrow> Inl ''Authentication token required''
      | Some t \<Rightarrow>
          if t = [] then Inl ''Authentication token required''
          else (case findUserByAddress d t of
                  None \<Rightarrow> Inl ''Authentication failed''
                | Some u \<Rightarrow> Inr u))"

text \<open>The connection handler; the transport has put the socket into the room of its own id.\<close>

definition onConnection :: "server \<Rightarrow> string \<Rightarrow> user \<Rightarrow> server" where
  "onConnection s socketId u =
     s\<lparr>redis := addUserConnection (redis s) socketId (address u),
       rooms := socketJoin (rooms s) socketId socketId,
       sockets := AList.update socketId u (sockets s),
       emitted := emitted s @ [(socketId, ConnectionEstablished socketId)]\<rparr>"

text \<open>A connection attempt: the middleware, then the connection handler. The second
  component is the error the attempt is refused with.\<close>

definition connect :: "server \<Rightarrow> string \<Rightarrow> string option \<Rightarrow> server \<times> string option" where
  "connect s socketId token =
     (case authMiddleware (db s) token of
        Inl err \<Rightarrow> (s, Some err)
      | Inr u \<Rightarrow> (onConnection s socketId u, None))"

subsection \<open>getGroups\<close>

text \<open>The query sorts by \<open>createdAt\<close> descending (groups of equal \<open>createdAt\<close> stay in
  natural order here); the two filters test membership on the populated members.\<close>

definition getGroups :: "server \<Rightarrow> user \<Rightarrow> groupView list" where
  "getGroups s u =
     (let allGroups = map (populateGroup (db s))
                        (sort_key (\<lambda>g. - g_createdAt g)
                           (filter (\<lambda>g. \<not> isPrivate g) (groups (db s))));
          userGroups = filter (\<lambda>g. list_ex (\<lambda>member. uid member = uid u) (gv_members g)) allGroups;
          otherGroups = filter (\<lambda>g. \<not> list_ex (\<lambda>member. uid member = uid u) (gv_members g)) allGroups
      in userGroups @ otherGroups)"

subsection \<open>createGroup\<close>

text \<open>\<open>Group.create\<close> fails on an empty name (the schema requires it) and on an \<open>_id\<close>
  that is already in the collection; \<open>newId\<close> is the ObjectId the driver generates and
  \<open>now\<close> the clock.\<close>

definition createGroup :: "server \<Rightarrow> user \<Rightarrow> createGroupData \<Rightarrow> objectId \<Rightarrow> int \<Rightarrow> server \<times> groupView option" where
  "createGroup s u data newId now =
     (if cg_name data = [] \<or> newId \<in> set (map gid (groups (db s))) then (s, None)
      else
        let g = \<lparr>gid = newId, name = cg_name data, description = cg_description data,
                 owner = uid u, members = [uid u], isPrivate = False, g_createdAt = now\<rparr>;
            d = (db s)\<lparr>groups := groups (db s) @ [g]\<rparr>
        in (s\<lparr>db := d\<rparr>, Some (populateGroup d g)))"

subsection \<open>joinGroup and leaveGroup\<close>

text \<open>The presence write comes first and stays when \<open>findById\<close> then throws on a
  malformed id. \<open>members.includes\<close> compares ObjectIds by value.\<close>

definition joinGroup :: "server \<Rightarrow> string \<Rightarrow> user \<Rightarrow> string \<Rightarrow> server" where
  "joinGroup s socketId u groupId =
     (let s1 = s\<lparr>redis := addUserToGroup (redis s) groupId socketId (address u)\<rparr>
      in case castObjectId groupId of
           None \<Rightarrow> s1\<lparr>emitted := emitted s1 @ [(socketId, ErrorEvent ''Failed to join group'')]\<rparr>
         | Some i \<Rightarrow>
             let d = (case findGroupById (db s1) i of
                        None \<Rightarrow> db s1
                      | Some g \<Rightarrow>
                          if uid u \<in> set (members g) then db s1
                          else (db s1)\<lparr>groups :=
                                 updateOne (\<lambda>h. gid h = gid g)
                                   (\<lambda>h. g\<lparr>members := members g @ [uid u]\<rparr>) (groups (db s1))\<rparr>)
             in s1\<lparr>db := d, rooms := socketJoin (rooms s1) socketId groupId\<rparr>)"

definition leaveGroup :: "server \<Rightarrow> string \<Rightarrow> string \<Rightarrow> server" where
  "leaveGroup s socketId groupId =
     s\<lparr>redis := removeUserFromGroup (redis s) groupId socketId,
       rooms := socketLeave (rooms s) socketId groupId\<rparr>"

subsection \<open>joinGroup, await by await\<close>

text \<open>
  The handler suspends at each \<open>await\<close>, and the transport does not wait for it before it
  starts the handler of the next event. A task is a handler of \<open>joinGroup\<close> suspended at
  one of its awaits: at the presence write, at \<open>findById\<close>, at \<open>save\<close> (holding the
  document it loaded, to which it has pushed the identity) or at \<open>socket.join\<close>. Resuming
  a task performs the awaited call on the state as it is then and runs the handler to its
  next await: the \<open>includes\<close> test is made on the loaded document as soon as \<open>findById\<close>
  returns, and \<open>save\<close> sends the push of the one new member to the stored document.
  \<open>runJoins\<close> resumes the tasks in the order of a schedule of task numbers.
\<close>

datatype joinTask =
    AwaitPresence string user string
  | AwaitFind string user string
  | AwaitSave string user string "group"
  | AwaitSubscribe string string

fun resumeJoin :: "server \<Rightarrow> joinTask \<Rightarrow> server \<times> joinTask option" where
  "resumeJoin s (AwaitPresence socketId u groupId) =
     (s\<lparr>redis := addUserToGroup (redis s) groupId socketId (address u)\<rparr>,
      Some (AwaitFind socketId u groupId))"
| "resumeJoin s (AwaitFind socketId u groupId) =
     (case castObjectId groupId of
        None \<Rightarrow> (s\<lparr>emitted := emitted s @ [(socketId, ErrorEvent ''Failed to join group'')]\<rparr>, None)
      | Some i \<Rightarrow>
          (case findGroupById (db s) i of
             None \<Rightarrow> (s, Some (AwaitSubscribe socketId groupId))
           | Some g \<Rightarrow>
               if uid u \<in> set (members g) then (s, Some (AwaitSubscribe socketId groupId))
               else (s, Some (AwaitSave socketId u groupId g))))"
| "resumeJoin s (AwaitSave socketId u groupId g) =
     (s\<lparr>db := (db s)\<lparr>groups :=
          updateOne (\<lambda>h. gid h = gid g) (\<lambda>h. h\<lparr>members := members h @ [uid u]\<rparr>)
            (groups (db s))\<rparr>\<rparr>,
      Some (AwaitSubscribe socketId groupId))"
| "resumeJoin s (AwaitSubscribe socketId groupId) =
     (s\<lparr>rooms := socketJoin (rooms s) socketId groupId\<rparr>, None)"

fun runJoins :: "server \<Rightarrow> joinTask option list \<Rightarrow> nat list \<Rightarrow> server" where
  "runJoins s tasks [] = s"
| "runJoins s tasks (k # ks) =
     (if k < length tasks
      then (case tasks ! k of
              None \<Rightarrow> runJoins s tasks ks
            | Some t \<Rightarrow> (case resumeJoin s t of (s', t') \<Rightarrow> runJoins s' (tasks[k := t']) ks))
      else runJoins s tasks ks)"

subsection \<open>sendMessage\<close>

text \<open>\<open>Chat.create\<close> fails when the group id does not cast, on an empty message (the schema
  requires it) and on an \<open>_id\<close> that is already in the collection.\<close>

definition sendMessage :: "server \<Rightarrow> string \<Rightarrow> user \<Rightarrow> sendMessageData \<Rightarrow> objectId \<Rightarrow> int \<Rightarrow> server" where
  "sendMessage s socketId u data newId now =
     (case castObjectId (sm_groupId data) of
        None \<Rightarrow> s\<lparr>emitted := emitted s @ [(socketId, ErrorEvent ''Failed to send message'')]\<rparr>
      | Some g \<Rightarrow>
          if sm_message data = [] \<or> newId \<in> set (map cid (chats (db s)))
          then s\<lparr>emitted := emitted s @ [(socketId, ErrorEvent ''Failed to send message'')]\<rparr>
          else
            let c = \<lparr>cid = newId, message = sm_message data, sender = uid u, c_groupId = g,
                     createdAt = now, isDeleted = False\<rparr>;
                messageData = \<lparr>msg_id = oidToString (cid c), msg_message = message c,
                               msg_sender_address = address u, msg_createdAt = createdAt c,
                               msg_groupId = oidToString (c_groupId c)\<rparr>
            in s\<lparr>db := (db s)\<lparr>chats := chats (db s) @ [c]\<rparr>,
                 emitted := emitted s @
                   map (\<lambda>sid. (sid, MessageEvent messageData)) (roomSockets (rooms s) (sm_groupId data))\<rparr>)"

subsection \<open>loadMessages\<close>

text \<open>The query of \<open>loadMessages\<close> once its ids are cast: filter, sort by \<open>createdAt\<close>
  descending, limit 50. Documents of equal \<open>createdAt\<close> stay in natural order here; the
  store leaves their order open, and no result below rests on it.\<close>

definition findChats :: "database \<Rightarrow> objectId \<Rightarrow> objectId option \<Rightarrow> chat list" where
  "findChats d g beforeId =
     take 50 (sort_key (\<lambda>c. - createdAt c)
       (filter (\<lambda>c. c_groupId c = g \<and> \<not> isDeleted c \<and>
                     (case beforeId of None \<Rightarrow> True | Some b \<Rightarrow> cid c < b)) (chats d)))"

text \<open>Formatting reads \<open>msg.sender.address\<close> of the populated sender, which throws when the
  sender did not resolve.\<close>

definition formatMessage :: "database \<Rightarrow> chat \<Rightarrow> messageType option" where
  "formatMessage d c =
     (case findUserById d (sender c) of
        None \<Rightarrow> None
      | Some u \<Rightarrow> Some \<lparr>msg_id = oidToString (cid c), msg_message = message c,
                        msg_sender_address = address u, msg_createdAt = createdAt c,
                        msg_groupId = oidToString (c_groupId c)\<rparr>)"

text \<open>An absent or empty \<open>before\<close> is falsy and adds no condition to the query.\<close>

definition castBefore :: "string option \<Rightarrow> objectId option option" where
  "castBefore beforeId =
     (case beforeId of
        None \<Rightarrow> Some None
      | Some b \<Rightarrow> if b = [] then Some None else map_option Some (castObjectId b))"

definition loadMessages :: "server \<Rightarrow> loadMessagesData \<Rightarrow> messageType list" where
  "loadMessages s data =
     (case castObjectId (lm_groupId data) of
        None \<Rightarrow> []
      | Some g \<Rightarrow>
          (case castBefore (lm_before data) of
             None \<Rightarrow> []
           | Some beforeId \<Rightarrow>
               (case those (map (formatMessage (db s)) (findChats (db s) g beforeId)) of
                  None \<Rightarrow> []
                | Some formattedMessages \<Rightarrow> formattedMessages)))"

subsection \<open>disconnect\<close>

text \<open>The handler runs \<open>cleanup\<close>; the transport takes the socket out of its rooms and
  delivers it no further event.\<close>

definition disconnect :: "server \<Rightarrow> string \<Rightarrow> server" where
  "disconnect s socketId =
     s\<lparr>redis := cleanup (redis s) socketId,
       rooms := filter (\<lambda>sr. fst sr \<noteq> socketId) (rooms s),
       sockets := AList.delete socketId (sockets s)\<rparr>"

subsection \<open>Dispatch\<close>

text \<open>The handlers are registered inside the connection handler, so an event is accepted
  only from a socket for which that handler has run.\<close>

datatype clientEvent =
    GetGroups
  | CreateGroup createGroupData objectId int
  | JoinGroup string
  | LeaveGroup string
  | SendMessage sendMessageData objectId int
  | LoadMessages loadMessagesData
  | Disconnect

datatype reply =
    NoReply
  | GroupsReply "groupView list"
  | GroupReply "groupView option"
  | MessagesReply "messageType list"

definition handleEvent :: "server \<Rightarrow> string \<Rightarrow> clientEvent \<Rightarrow> server \<times> reply" where
  "handleEvent s socketId ev =
     (case map_of (sockets s) socketId of
        None \<Rightarrow> (s, NoReply)
      | Some u \<Rightarrow>
          (case ev of
             GetGroups \<Rightarrow> (s, GroupsReply (getGroups s u))
           | CreateGroup data newId now \<Rightarrow>
               (case createGroup s u data newId now of (s', g) \<Rightarrow> (s', GroupReply g))
           | JoinGroup groupId \<Rightarrow> (joinGroup s socketId u groupId, NoReply)
           | LeaveGroup groupId \<Rightarrow> (leaveGroup s socketId groupId, NoReply)
           | SendMessage data newId now \<Rightarrow> (sendMessage s socketId u data newId now, NoReply)
           | LoadMessages data \<Rightarrow> (s, MessagesReply (loadMessages s data))
           | Disconnect \<Rightarrow> (disconnect s socketId, NoReply)))"

datatype input =
    Connect string "string option"
  | Event string clientEvent

fun step :: "server \<Rightarrow> input \<Rightarrow> server" where
  "step s (Connect socketId token) = fst (connect s socketId token)"
| "step s (Event socketId ev) = fst (handleEvent s socketId ev)"

definition run :: "server \<Rightarrow> input list \<Rightarrow> server" where
  "run s inputs = foldl step s inputs"


section \<open>The client that walks the pages\<close>

text \<open>
  The client of the pagination claim: it loads a page, and as long as the page is not
  empty it loads the next one with the id of the last (oldest) message of the page as
  \<open>before\<close>. The walk returns every page it loaded, the final empty one included.
  \<open>groupChats\<close> are the stored messages of a group that are not soft-deleted.
\<close>

definition groupChats :: "database \<Rightarrow> objectId \<Rightarrow> chat list" where
  "groupChats d g = filter (\<lambda>c. c_groupId c = g \<and> \<not> isDeleted c) (chats d)"

function walkPages :: "server \<Rightarrow> string \<Rightarrow> string option \<Rightarrow> messageType list list" where
  "walkPages s groupId beforeId =
     (let page = loadMessages s \<lparr>lm_groupId = groupId, lm_before = beforeId\<rparr>
      in if page = [] then [page] else page # walkPages s groupId (Some (msg_id (last page))))"
  by pat_completeness auto

definition walk :: "server \<Rightarrow> string \<Rightarrow> messageType list list" where
  "walk s groupId = walkPages s groupId None"


section \<open>Example states\<close>

text \<open>Two identities, one public group with one member and two messages.\<close>

definition alice :: user where "alice = \<lparr>uid = 1, address = ''alice''\<rparr>"
definition bob :: user where "bob = \<lparr>uid = 2, address = ''bob''\<rparr>"

definition exampleServer :: server where
  "exampleServer =
     \<lparr>db = \<lparr>users = [alice, bob],
             groups = [\<lparr>gid = 16, name = ''G1'', description = None, owner = 1, members = [1],
                        isPrivate = False, g_createdAt = 5\<rparr>],
             chats = [\<lparr>cid = 32, message = ''hi'', sender = 1, c_groupId = 16, createdAt = 10,
                       isDeleted = False\<rparr>,
                      \<lparr>cid = 33, message = ''hello'', sender = 2, c_groupId = 16, createdAt = 20,
                       isDeleted = False\<rparr>]\<rparr>,
      redis = [], rooms = [], sockets = [], emitted = []\<rparr>"

text \<open>A store whose ids and creation times disagree: of the 51 messages of group 1, the one
  with the least id carries the latest \<open>createdAt\<close>.\<close>

definition skewedServer :: server where
  "skewedServer =
     \<lparr>db = \<lparr>users = [\<lparr>uid = 1, address = ''alice''\<rparr>],
             groups = [],
             chats = map (\<lambda>k. \<lparr>cid = of_nat k, message = ''m'', sender = 1, c_groupId = 1,
                                createdAt = (if k = 1 then 100 else int k), isDeleted = False\<rparr>)
                       [1..<52]\<rparr>,
      redis = [], rooms = [], sockets = [], emitted = []\<rparr>"


section \<open>Auxiliary definitions\<close>

text \<open>What removing a socket does to the hash under one key: the field goes, and a hash
  left empty goes with its key.\<close>

definition purge :: "string \<Rightarrow> hash option \<Rightarrow> hash option" where
  "purge socketId v =
     (case v of None \<Rightarrow> None
      | Some h \<Rightarrow> if AList.delete socketId h = [] then None else Some (AList.delete socketId h))"

text \<open>What one input does to the Group collection: it leaves it as it is, appends a public
  group with a single member, or appends one identity that was absent to the members of
  one group.\<close>

definition groupsStep :: "group list \<Rightarrow> group list \<Rightarrow> bool" where
  "groupsStep gs gs' \<longleftrightarrow>
     gs' = gs \<or>
     (\<exists>g m. gs' = gs @ [g] \<and> \<not> isPrivate g \<and> members g = [m]) \<or>
     (\<exists>g m. find (\<lambda>h. gid h = gid g) gs = Some g \<and> m \<notin> set (members g) \<and>
         gs' = updateOne (\<lambda>h. gid h = gid g) (\<lambda>h. g\<lparr>members := members g @ [m]\<rparr>) gs)"

text \<open>A list cut into pages of 50, closed by an empty page.\<close>

function pagesOf :: "'a list \<Rightarrow> 'a list list" where
  "pagesOf xs = (if xs = [] then [[]] else take 50 xs # pagesOf (drop 50 xs))"
  by pat_completeness auto
termination
  by (relation "measure length") auto

declare pagesOf.simps [simp del]

text \<open>The rank of a cursor, which decreases along the walk, and the cursor a client holds
  after the messages \<open>pre\<close>.\<close>

definition cursorRank :: "string option \<Rightarrow> nat" where
  "cursorRank beforeId =
     (case castBefore beforeId of
        None \<Rightarrow> 0
      | Some None \<Rightarrow> 2 ^ 96
      | Some (Some b) \<Rightarrow> unat b)"

definition cursorOf :: "chat list \<Rightarrow> string option" where
  "cursorOf pre = (if pre = [] then None else Some (oidToString (cid (last pre))))"


section \<open>Presence in the ephemeral store\<close>

text \<open>Every key of a group matches the pattern that \<open>cleanup\<close> scans, and the key of the
  connection hash does not.\<close>

lemma globMatch_star: "globMatch ps t \<Longrightarrow> globMatch (CHR ''*'' # ps) (g @ t)"
  by (induction g) (auto split: list.splits)

lemma groupKey_matches: "globMatch ''group:*:users'' (groupKey g)"
proof -
  have "globMatch '':users'' '':users''" by simp
  then have "globMatch (CHR ''*'' # '':users'') (g @ '':users'')" by (rule globMatch_star)
  then show ?thesis by (simp add: groupKey_def)
qed

lemma user_connections_no_match: "\<not> globMatch ''group:*:users'' ''user_connections''"
  by simp

lemma groupKey_neq_user_connections: "groupKey g \<noteq> ''user_connections''"
  by (simp add: groupKey_def)

lemma map_of_hdel:
  "map_of (hdel r key f) k = (if k = key then map_option (AList.delete f) (map_of r key) else map_of r k)"
  by (auto simp: hdel_def update_conv' split: option.splits)

lemma map_of_removeFromKey:
  "map_of (removeFromKey socketId key r) k = (if k = key then purge socketId (map_of r key) else map_of r k)"
  by (auto simp: removeFromKey_def Let_def hlen_def hgetall_def del_def map_of_hdel delete_conv' purge_def
      split: option.splits)

lemma purge_idem: "purge socketId (purge socketId v) = purge socketId v"
  by (auto simp: purge_def delete_idem split: option.splits)

lemma map_of_fold_removeFromKey:
  "map_of (fold (removeFromKey socketId) ks r) k =
     (if k \<in> set ks then purge socketId (map_of r k) else map_of r k)"
  by (induction ks arbitrary: r) (auto simp: map_of_removeFromKey purge_idem)

lemma not_in_delete: "(k, b) \<notin> set (AList.delete k al)"
  by (simp add: AList.delete_eq)

lemma purge_clean: "purge socketId v = Some h \<Longrightarrow> socketId \<notin> fst ` set h \<and> h \<noteq> []"
  by (auto simp: purge_def not_in_delete split: option.splits if_splits)

lemma map_of_cleanup_group:
  assumes "globMatch ''group:*:users'' k"
  shows "map_of (cleanup r socketId) k = purge socketId (map_of r k)"
proof -
  have ne: "k \<noteq> ''user_connections''" using assms by auto
  show ?thesis
  proof (cases "k \<in> fst ` set r")
    case True
    with assms have "k \<in> set (keys r ''group:*:users'')" by (auto simp: keys_def)
    then show ?thesis using ne by (simp add: cleanup_def Let_def map_of_hdel map_of_fold_removeFromKey)
  next
    case False
    then have "map_of r k = None" by (simp add: map_of_eq_None_iff)
    then show ?thesis using ne
      by (simp add: cleanup_def Let_def map_of_hdel map_of_fold_removeFromKey purge_def)
  qed
qed

lemma cleanup_user_connections:
  "socketId \<notin> fst ` set (hgetall (cleanup r socketId) ''user_connections'')"
  by (auto simp: cleanup_def Let_def hgetall_def map_of_hdel not_in_delete split: option.splits)

text \<open>
  Claim C3. After the disconnect handler has run for a socket, the presence hash of no
  group contains the socket id, whatever the groups it had joined, and the hash
  \<open>user_connections\<close> does not contain it either.
\<close>

theorem disconnect_purges_presence:
  "socketId \<notin> fst ` set (getGroupUsers (redis (disconnect s socketId)) groupId) \<and>
   socketId \<notin> fst ` set (hgetall (redis (disconnect s socketId)) ''user_connections'')"
proof -
  have "socketId \<notin> fst ` set (hgetall (cleanup (redis s) socketId) (groupKey groupId))"
    by (cases "purge socketId (map_of (redis s) (groupKey groupId))")
      (auto simp: hgetall_def map_of_cleanup_group [OF groupKey_matches] dest!: purge_clean)
  then show ?thesis
    by (simp add: disconnect_def getGroupUsers_def cleanup_user_connections)
qed

theorem disconnect_purges_presence_witness:
  "''s1'' \<notin> fst ` set (getGroupUsers (redis (disconnect
      \<lparr>db = \<lparr>users = [], groups = [], chats = []\<rparr>,
       redis = [(''group:a:users'', [(''s1'', ''alice'')]),
                (''group:b:users'', [(''s2'', ''bob''), (''s1'', ''alice'')]),
                (''user_connections'', [(''s1'', ''alice''), (''s2'', ''bob'')])],
       rooms = [], sockets = [], emitted = []\<rparr> ''s1'')) ''b'') \<and>
   ''s1'' \<notin> fst ` set (hgetall (redis (disconnect
      \<lparr>db = \<lparr>users = [], groups = [], chats = []\<rparr>,
       redis = [(''group:a:users'', [(''s1'', ''alice'')]),
                (''group:b:users'', [(''s2'', ''bob''), (''s1'', ''alice'')]),
                (''user_connections'', [(''s1'', ''alice''), (''s2'', ''bob'')])],
       rooms = [], sockets = [], emitted = []\<rparr> ''s1'')) ''user_connections'')"
  by (rule disconnect_purges_presence)

text \<open>
  Claim C7. After \<open>removeUserFromGroup\<close> the key of that group does not hold an empty
  hash, and if no group key held an empty hash before, none does after; after \<open>cleanup\<close>
  no group key holds an empty hash.
\<close>

theorem no_empty_presence_key:
  "map_of (removeUserFromGroup r groupId socketId) (groupKey groupId) \<noteq> Some [] \<and>
   ((\<forall>g. map_of r (groupKey g) \<noteq> Some []) \<longrightarrow>
      (\<forall>g. map_of (removeUserFromGroup r groupId socketId) (groupKey g) \<noteq> Some [])) \<and>
   (\<forall>g. map_of (cleanup r socketId) (groupKey g) \<noteq> Some [])"
proof -
  have p: "purge socketId v \<noteq> Some []" for v
    using purge_clean [of socketId v "[]"] by auto
  show ?thesis
    by (auto simp: removeUserFromGroup_def map_of_removeFromKey map_of_cleanup_group [OF groupKey_matches] p)
qed

theorem no_empty_presence_key_witness:
  "map_of (removeUserFromGroup [(''group:a:users'', [(''s1'', ''alice'')])] ''a'' ''s1'')
     (groupKey ''a'') \<noteq> Some [] \<and>
   (\<forall>g. map_of [(''group:a:users'', [(''s1'', ''alice'')])] (groupKey g) \<noteq> Some []) \<and>
   (\<forall>g. map_of (removeUserFromGroup [(''group:a:users'', [(''s1'', ''alice'')])] ''a'' ''s1'')
     (groupKey g) \<noteq> Some []) \<and>
   (\<forall>g. map_of (cleanup [(''group:a:users'', [(''s1'', ''alice'')])] ''s1'') (groupKey g) \<noteq> Some [])"
  using no_empty_presence_key [of "[(''group:a:users'', [(''s1'', ''alice'')])]" "''a''" "''s1''"]
  by simp


section \<open>What the handlers write to the Group collection\<close>

lemma find_gid: "find (\<lambda>h. gid h = i) gs = Some g \<Longrightarrow> gid g = i"
  by (induction gs) (auto split: if_splits)

lemma groupsStep_createGroup: "groupsStep (groups (db s)) (groups (db (fst (createGroup s u data newId now))))"
  by (auto simp: groupsStep_def createGroup_def Let_def)

lemma groupsStep_joinGroup: "groupsStep (groups (db s)) (groups (db (joinGroup s socketId u groupId)))"
proof (cases "castObjectId groupId")
  case None
  then show ?thesis by (simp add: groupsStep_def joinGroup_def Let_def)
next
  case (Some i)
  show ?thesis
  proof (cases "findGroupById (db s) i")
    case None
    with Some show ?thesis by (simp add: groupsStep_def joinGroup_def Let_def findGroupById_def)
  next
    case (Some g)
    then have "gid g = i" by (auto simp: findGroupById_def dest: find_gid)
    with Some \<open>castObjectId groupId = Some i\<close> show ?thesis
      by (auto simp: groupsStep_def joinGroup_def Let_def findGroupById_def)
  qed
qed

lemma groupsStep_step: "groupsStep (groups (db s)) (groups (db (step s inp)))"
proof (cases inp)
  case (Connect socketId token)
  then show ?thesis
    by (auto simp: groupsStep_def connect_def onConnection_def split: sum.splits)
next
  case (Event socketId ev)
  show ?thesis
  proof (cases "map_of (sockets s) socketId")
    case None
    with Event show ?thesis by (simp add: handleEvent_def groupsStep_def)
  next
    case (Some u)
    show ?thesis
    proof (cases ev)
      case (CreateGroup data newId now)
      with Event Some show ?thesis
        using groupsStep_createGroup [of s u data newId now]
        by (auto simp: handleEvent_def split: prod.splits)
    next
      case (JoinGroup groupId)
      with Event Some show ?thesis
        using groupsStep_joinGroup [of s socketId u groupId] by (simp add: handleEvent_def)
    next
      case (SendMessage data newId now)
      with Event Some show ?thesis
        by (auto simp: handleEvent_def groupsStep_def sendMessage_def Let_def split: option.splits)
    qed (use Event Some in \<open>simp_all add: handleEvent_def groupsStep_def leaveGroup_def disconnect_def\<close>)
  qed
qed

lemma run_induct:
  assumes "P s" and "\<And>t inp. P t \<Longrightarrow> P (step t inp)"
  shows "P (run s inputs)"
  unfolding run_def using assms(1)
  by (induction inputs arbitrary: s) (auto intro: assms(2))

lemma find_Some_mem: "find P xs = Some g \<Longrightarrow> g \<in> set xs \<and> P g"
  by (induction xs) (auto split: if_splits)

lemma updateOne_old:
  "find P xs = Some g \<Longrightarrow> x \<in> set xs \<Longrightarrow> x = g \<or> x \<in> set (updateOne P (\<lambda>h. g') xs)"
  by (induction xs) (auto split: if_splits)

lemma updateOne_new:
  "find P xs = Some g \<Longrightarrow> y \<in> set (updateOne P (\<lambda>h. g') xs) \<Longrightarrow> y = g' \<or> y \<in> set xs"
  by (induction xs) (auto split: if_splits)

lemma updateOne_written: "find P xs = Some g \<Longrightarrow> g' \<in> set (updateOne P (\<lambda>h. g') xs)"
  by (induction xs) (auto split: if_splits)

lemma find_updateOne: "find P xs = Some g \<Longrightarrow> P g' \<Longrightarrow> find P (updateOne P (\<lambda>h. g') xs) = Some g'"
  by (induction xs) (auto split: if_splits)

lemma updateOne_map_filter:
  "find P xs = Some g \<Longrightarrow> Q g' = Q g \<Longrightarrow> f g' = f g \<Longrightarrow>
     map f (filter Q (updateOne P (\<lambda>h. g') xs)) = map f (filter Q xs)"
  by (induction xs) (auto split: if_splits)

lemma groupsStep_members_kept:
  assumes "groupsStep gs gs'" and "g \<in> set gs"
  shows "\<exists>g' \<in> set gs'. gid g' = gid g \<and> set (members g) \<subseteq> set (members g')"
  using assms(1) unfolding groupsStep_def
proof (elim disjE exE conjE)
  fix h m
  assume f: "find (\<lambda>k. gid k = gid h) gs = Some h"
    and gs': "gs' = updateOne (\<lambda>k. gid k = gid h) (\<lambda>k. h\<lparr>members := members h @ [m]\<rparr>) gs"
  from updateOne_old [OF f assms(2)] show ?thesis
  proof
    assume "g = h"
    then show ?thesis using updateOne_written [OF f] gs'
      by (intro bexI [of _ "h\<lparr>members := members h @ [m]\<rparr>"]) auto
  next
    assume "g \<in> set (updateOne (\<lambda>k. gid k = gid h) (\<lambda>k. h\<lparr>members := members h @ [m]\<rparr>) gs)"
    then show ?thesis using gs' by auto
  qed
qed (use assms(2) in auto)

lemma groupsStep_distinct:
  assumes "groupsStep gs gs'" and "\<forall>g \<in> set gs. distinct (members g)"
  shows "\<forall>g \<in> set gs'. distinct (members g)"
  using assms(1) unfolding groupsStep_def
proof (elim disjE exE conjE)
  fix h m
  assume f: "find (\<lambda>k. gid k = gid h) gs = Some h" and m: "m \<notin> set (members h)"
    and gs': "gs' = updateOne (\<lambda>k. gid k = gid h) (\<lambda>k. h\<lparr>members := members h @ [m]\<rparr>) gs"
  have "h \<in> set gs" using find_Some_mem [OF f] by simp
  then have "distinct (members h)" using assms(2) by simp
  then show ?thesis using updateOne_new [OF f] gs' m assms(2) by fastforce
qed (use assms(2) in auto)

lemma groupsStep_private:
  assumes "groupsStep gs gs'"
  shows "map gid (filter isPrivate gs') = map gid (filter isPrivate gs)"
  using assms unfolding groupsStep_def
  by (elim disjE exE conjE) (auto simp: updateOne_map_filter)

lemma groupsStep_public_stays:
  assumes "groupsStep gs gs'" and "\<exists>g \<in> set gs. gid g = i \<and> \<not> isPrivate g"
  shows "\<exists>g \<in> set gs'. gid g = i \<and> \<not> isPrivate g"
proof -
  have "i \<in> set (map gid (filter (\<lambda>g. \<not> isPrivate g) gs))" using assms(2) by auto
  moreover have "set (map gid (filter (\<lambda>g. \<not> isPrivate g) gs)) \<subseteq> set (map gid (filter (\<lambda>g. \<not> isPrivate g) gs'))"
    using assms(1) unfolding groupsStep_def
  proof (elim disjE exE conjE)
    fix h m
    assume f: "find (\<lambda>k. gid k = gid h) gs = Some h"
      and gs': "gs' = updateOne (\<lambda>k. gid k = gid h) (\<lambda>k. h\<lparr>members := members h @ [m]\<rparr>) gs"
    have "map gid (filter (\<lambda>g. \<not> isPrivate g) gs') = map gid (filter (\<lambda>g. \<not> isPrivate g) gs)"
      unfolding gs' by (rule updateOne_map_filter [OF f]) simp_all
    then show ?thesis by simp
  qed auto
  ultimately have "i \<in> set (map gid (filter (\<lambda>g. \<not> isPrivate g) gs'))" by blast
  then show ?thesis by auto
qed


section \<open>joinGroup and leaveGroup\<close>

lemma map_of_hset_same: "map_of (hgetall (hset r key f v) key) f = Some v"
  by (simp add: hset_def hgetall_def update_conv')

lemma db_joinGroup:
  "db (joinGroup s socketId u groupId) =
     (case castObjectId groupId of
        None \<Rightarrow> db s
      | Some i \<Rightarrow>
          (case findGroupById (db s) i of
             None \<Rightarrow> db s
           | Some g \<Rightarrow>
               if uid u \<in> set (members g) then db s
               else (db s)\<lparr>groups := updateOne (\<lambda>h. gid h = i)
                                         (\<lambda>h. g\<lparr>members := members g @ [uid u]\<rparr>) (groups (db s))\<rparr>))"
  by (auto simp: joinGroup_def Let_def findGroupById_def split: option.splits dest: find_gid)

lemma findGroupById_joinGroup:
  assumes "castObjectId groupId = Some i" and "findGroupById (db s) i = Some g"
  shows "findGroupById (db (joinGroup s socketId u groupId)) i =
           Some (if uid u \<in> set (members g) then g else g\<lparr>members := members g @ [uid u]\<rparr>)"
proof -
  have "gid g = i" using assms(2) by (auto simp: findGroupById_def dest: find_gid)
  then show ?thesis using assms
    by (auto simp: db_joinGroup findGroupById_def intro!: find_updateOne)
qed

lemma distinct_count_list_one: "distinct xs \<Longrightarrow> x \<in> set xs \<Longrightarrow> count_list xs x = 1"
  by (induction xs) (auto simp: count_list_0_iff)

text \<open>
  Claim C10. Joining with a well-formed group id that references no Group succeeds: no
  event is emitted (so no error), the socket is recorded in the presence hash of that id
  and put into the room of that id, and the document store is left as it was.
\<close>

theorem join_nonexistent_group:
  assumes "castObjectId groupId = Some i" and "findGroupById (db s) i = None"
  shows "emitted (joinGroup s socketId u groupId) = emitted s \<and>
         map_of (getGroupUsers (redis (joinGroup s socketId u groupId)) groupId) socketId = Some (address u) \<and>
         (socketId, groupId) \<in> set (rooms (joinGroup s socketId u groupId)) \<and>
         db (joinGroup s socketId u groupId) = db s"
  using assms
  by (simp add: joinGroup_def Let_def getGroupUsers_def addUserToGroup_def map_of_hset_same socketJoin_def)

theorem join_nonexistent_group_witness:
  "emitted (joinGroup exampleServer ''s1'' bob ''0000000000000000000000ff'') = emitted exampleServer \<and>
   map_of (getGroupUsers (redis (joinGroup exampleServer ''s1'' bob ''0000000000000000000000ff''))
      ''0000000000000000000000ff'') ''s1'' = Some (address bob) \<and>
   (''s1'', ''0000000000000000000000ff'') \<in> set (rooms (joinGroup exampleServer ''s1'' bob ''0000000000000000000000ff'')) \<and>
   db (joinGroup exampleServer ''s1'' bob ''0000000000000000000000ff'') = db exampleServer"
proof -
  have h1: "castObjectId ''0000000000000000000000ff'' = Some 255" by code_simp
  have h2: "findGroupById (db exampleServer) 255 = None" by code_simp
  show ?thesis using join_nonexistent_group [OF h1 h2] .
qed

text \<open>
  Joins that do not overlap. When an identity joins an existing group twice (from any two
  sockets) and the second handler starts after the first has ended, the group's member
  list holds that identity exactly once, provided the list had no duplicate before; the
  second join leaves the document store as the first left it; and duplicate-free member
  lists stay duplicate-free under every sequence of handlers that run one after the other.
\<close>

lemma join_idempotent:
  "(castObjectId groupId = Some i \<and> findGroupById (db s) i = Some g \<and> distinct (members g) \<longrightarrow>
      (\<exists>g'. findGroupById (db (joinGroup (joinGroup s socketId1 u groupId) socketId2 u groupId)) i = Some g' \<and>
            count_list (members g') (uid u) = 1)) \<and>
   db (joinGroup (joinGroup s socketId1 u groupId) socketId2 u groupId) = db (joinGroup s socketId1 u groupId) \<and>
   ((\<forall>g \<in> set (groups (db s)). distinct (members g)) \<longrightarrow>
      (\<forall>g \<in> set (groups (db (run s inputs))). distinct (members g)))"
proof (intro conjI impI)
  assume a: "castObjectId groupId = Some i \<and> findGroupById (db s) i = Some g \<and> distinct (members g)"
  define g1 where "g1 = (if uid u \<in> set (members g) then g else g\<lparr>members := members g @ [uid u]\<rparr>)"
  have 1: "findGroupById (db (joinGroup s socketId1 u groupId)) i = Some g1"
    using a by (simp add: findGroupById_joinGroup g1_def)
  have m: "uid u \<in> set (members g1)" and d: "distinct (members g1)"
    using a by (auto simp: g1_def)
  have "findGroupById (db (joinGroup (joinGroup s socketId1 u groupId) socketId2 u groupId)) i = Some g1"
    using a 1 m by (simp add: findGroupById_joinGroup)
  then show "\<exists>g'. findGroupById (db (joinGroup (joinGroup s socketId1 u groupId) socketId2 u groupId)) i = Some g' \<and>
            count_list (members g') (uid u) = 1"
    using m d by (simp add: distinct_count_list_one)
next
  show "db (joinGroup (joinGroup s socketId1 u groupId) socketId2 u groupId) = db (joinGroup s socketId1 u groupId)"
  proof (cases "castObjectId groupId")
    case None
    then show ?thesis by (simp add: db_joinGroup)
  next
    case (Some i)
    show ?thesis
    proof (cases "findGroupById (db s) i")
      case None
      with Some show ?thesis by (simp add: db_joinGroup)
    next
      case (Some g)
      with \<open>castObjectId groupId = Some i\<close>
      have "findGroupById (db (joinGroup s socketId1 u groupId)) i =
              Some (if uid u \<in> set (members g) then g else g\<lparr>members := members g @ [uid u]\<rparr>)"
        by (rule findGroupById_joinGroup)
      then show ?thesis using \<open>castObjectId groupId = Some i\<close>
        by (subst db_joinGroup) simp
    qed
  qed
next
  assume "\<forall>g \<in> set (groups (db s)). distinct (members g)"
  then show "\<forall>g \<in> set (groups (db (run s inputs))). distinct (members g)"
    by (rule run_induct) (rule groupsStep_distinct [OF groupsStep_step])
qed

lemma updateOne_stored:
  "find P xs = Some g \<Longrightarrow> updateOne P f xs = updateOne P (\<lambda>h. f g) xs"
  by (induction xs) (auto split: if_splits)

text \<open>A task that is resumed four times with no other task in between does what
  \<open>joinGroup\<close> does in one step.\<close>

lemma runJoins_alone:
  "runJoins s [Some (AwaitPresence socketId u groupId)] [0, 0, 0, 0] = joinGroup s socketId u groupId"
proof (cases "castObjectId groupId")
  case None
  then show ?thesis by (simp add: joinGroup_def Let_def)
next
  case (Some i)
  show ?thesis
  proof (cases "findGroupById (db s) i")
    case None
    with Some show ?thesis by (simp add: joinGroup_def Let_def)
  next
    case g: (Some g)
    then have f: "find (\<lambda>h. gid h = gid g) (groups (db s)) = Some g"
      by (auto simp: findGroupById_def dest: find_gid)
    show ?thesis using Some g updateOne_stored [OF f, of "\<lambda>h. h\<lparr>members := members h @ [uid u]\<rparr>"]
      by (simp add: joinGroup_def Let_def)
  qed
qed

text \<open>
  Claim C2 says that two joins of one group by one identity leave the identity once in
  the member list, and that a member list never holds an identity twice. The handler
  tests \<open>includes\<close> to that end, but on the document it loaded: when two joins of bob
  overlap, so that both have loaded the group before either saves, both tests pass and
  both saves push bob, and the member list holds him twice. When the second join starts
  after the first has ended, it holds him once.
\<close>

theorem overlapping_joins_duplicate_member:
  "map members (groups (db (runJoins exampleServer
      [Some (AwaitPresence ''s1'' bob ''000000000000000000000010''),
       Some (AwaitPresence ''s2'' bob ''000000000000000000000010'')]
      [0, 1, 0, 1, 0, 1, 0, 1]))) = [[1, 2, 2]] \<and>
   map members (groups (db (runJoins exampleServer
      [Some (AwaitPresence ''s1'' bob ''000000000000000000000010''),
       Some (AwaitPresence ''s2'' bob ''000000000000000000000010'')]
      [0, 0, 0, 0, 1, 1, 1, 1]))) = [[1, 2]]"
  by code_simp

text \<open>
  Claim C6. Leaving a group removes the socket from the presence hash of that group and
  from its room and leaves the document store unchanged; and under every sequence of
  inputs each group stays in the store with every identity it had among its members.
\<close>

theorem leave_keeps_membership:
  "socketId \<notin> fst ` set (getGroupUsers (redis (leaveGroup s socketId groupId)) groupId) \<and>
   (socketId, groupId) \<notin> set (rooms (leaveGroup s socketId groupId)) \<and>
   db (leaveGroup s socketId groupId) = db s \<and>
   (\<forall>g \<in> set (groups (db s)). \<exists>g' \<in> set (groups (db (run s inputs))).
       gid g' = gid g \<and> set (members g) \<subseteq> set (members g'))"
proof (intro conjI)
  show "socketId \<notin> fst ` set (getGroupUsers (redis (leaveGroup s socketId groupId)) groupId)"
    by (cases "purge socketId (map_of (redis s) (groupKey groupId))")
      (auto simp: leaveGroup_def getGroupUsers_def removeUserFromGroup_def hgetall_def
        map_of_removeFromKey dest!: purge_clean)
  show "(socketId, groupId) \<notin> set (rooms (leaveGroup s socketId groupId))"
    by (simp add: leaveGroup_def socketLeave_def)
  show "db (leaveGroup s socketId groupId) = db s"
    by (simp add: leaveGroup_def)
  show "\<forall>g \<in> set (groups (db s)). \<exists>g' \<in> set (groups (db (run s inputs))).
       gid g' = gid g \<and> set (members g) \<subseteq> set (members g')"
  proof (rule run_induct)
    show "\<forall>g \<in> set (groups (db s)). \<exists>g' \<in> set (groups (db s)). gid g' = gid g \<and> set (members g) \<subseteq> set (members g')"
      by auto
  next
    fix t :: server and inp
    assume h: "\<forall>g \<in> set (groups (db s)). \<exists>g' \<in> set (groups (db t)). gid g' = gid g \<and> set (members g) \<subseteq> set (members g')"
    show "\<forall>g \<in> set (groups (db s)). \<exists>g' \<in> set (groups (db (step t inp))). gid g' = gid g \<and> set (members g) \<subseteq> set (members g')"
    proof
      fix g assume "g \<in> set (groups (db s))"
      with h obtain g1 where g1: "g1 \<in> set (groups (db t))" "gid g1 = gid g" "set (members g) \<subseteq> set (members g1)"
        by blast
      from groupsStep_members_kept [OF groupsStep_step g1(1), of inp]
      obtain g2 where "g2 \<in> set (groups (db (step t inp)))" "gid g2 = gid g1" "set (members g1) \<subseteq> set (members g2)"
        by blast
      with g1 show "\<exists>g' \<in> set (groups (db (step t inp))). gid g' = gid g \<and> set (members g) \<subseteq> set (members g')"
        by (intro bexI [of _ g2]) auto
    qed
  qed
qed

theorem leave_keeps_membership_witness:
  "''s1'' \<notin> fst ` set (getGroupUsers (redis (leaveGroup exampleServer ''s1'' ''000000000000000000000010''))
       ''000000000000000000000010'') \<and>
   (''s1'', ''000000000000000000000010'') \<notin>
       set (rooms (leaveGroup exampleServer ''s1'' ''000000000000000000000010'')) \<and>
   db (leaveGroup exampleServer ''s1'' ''000000000000000000000010'') = db exampleServer \<and>
   list_all (\<lambda>g. list_ex (\<lambda>g'. gid g' = gid g \<and> set (members g) \<subseteq> set (members g'))
       (groups (db (run exampleServer
          [Connect ''s1'' (Some ''alice''), Event ''s1'' (LeaveGroup ''000000000000000000000010''),
           Event ''s1'' Disconnect]))))
     (groups (db exampleServer))"
  unfolding list_all_iff list_ex_iff by (rule leave_keeps_membership)


section \<open>Handshake, createGroup and sendMessage\<close>

lemma sockets_step:
  assumes "map_of (sockets s) socketId = None" and "\<forall>tok. inp \<noteq> Connect socketId tok"
  shows "map_of (sockets (step s inp)) socketId = None"
proof (cases inp)
  case (Connect sid token)
  with assms show ?thesis
    by (auto simp: connect_def onConnection_def update_conv' split: sum.splits)
next
  case (Event sid ev)
  show ?thesis
  proof (cases "map_of (sockets s) sid")
    case None
    with Event assms show ?thesis by (simp add: handleEvent_def)
  next
    case (Some u)
    with Event assms show ?thesis
      by (cases ev)
        (auto simp: handleEvent_def createGroup_def joinGroup_def leaveGroup_def sendMessage_def
          disconnect_def Let_def delete_conv' split: option.splits prod.splits)
  qed
qed

lemma sockets_run:
  assumes "map_of (sockets s) socketId = None" and "\<forall>tok. Connect socketId tok \<notin> set inputs"
  shows "map_of (sockets (run s inputs)) socketId = None"
  using assms unfolding run_def
proof (induction inputs arbitrary: s)
  case Nil
  then show ?case by simp
next
  case (Cons inp inputs)
  have "map_of (sockets (step s inp)) socketId = None"
    using Cons.prems by (intro sockets_step) auto
  then show ?case using Cons.prems by (auto intro: Cons.IH)
qed

text \<open>
  Claim C4. When the token is absent (or empty) or matches the address of no User, the
  middleware fails and the connection attempt returns the state unchanged together with the
  error: nothing is registered under \<open>user_connections\<close> and no acknowledgment is emitted.
  The socket id, new to the server, stays unknown to it: whatever inputs follow, short of a
  new connection with that id, no event of that socket is accepted.
\<close>

theorem failed_authentication_rejects:
  assumes "token = None \<or> token = Some [] \<or>
           (\<exists>t. token = Some t \<and> (\<forall>u \<in> set (users (db s)). address u \<noteq> t))"
    and "socketId \<notin> fst ` set (sockets s)"
  shows "(\<exists>err. authMiddleware (db s) token = Inl err \<and> connect s socketId token = (s, Some err)) \<and>
         (\<forall>inputs. (\<forall>tok. Connect socketId tok \<notin> set inputs) \<longrightarrow>
            (\<forall>ev. handleEvent (run s inputs) socketId ev = (run s inputs, NoReply)))"
proof
  have "(\<forall>u \<in> set (users (db s)). address u \<noteq> t) \<Longrightarrow> findUserByAddress (db s) t = None" for t
    by (auto simp: findUserByAddress_def find_None_iff)
  then show "\<exists>err. authMiddleware (db s) token = Inl err \<and> connect s socketId token = (s, Some err)"
    using assms(1) by (auto simp: connect_def authMiddleware_def)
  have "map_of (sockets s) socketId = None" using assms(2) by (simp add: map_of_eq_None_iff)
  then show "\<forall>inputs. (\<forall>tok. Connect socketId tok \<notin> set inputs) \<longrightarrow>
            (\<forall>ev. handleEvent (run s inputs) socketId ev = (run s inputs, NoReply))"
    by (auto simp: handleEvent_def dest: sockets_run)
qed

theorem failed_authentication_rejects_witness:
  "(\<exists>err. authMiddleware (db exampleServer) (Some ''mallory'') = Inl err \<and>
          connect exampleServer ''s9'' (Some ''mallory'') = (exampleServer, Some err)) \<and>
   (\<forall>ev. handleEvent (run exampleServer [Connect ''s1'' (Some ''bob'')]) ''s9'' ev =
           (run exampleServer [Connect ''s1'' (Some ''bob'')], NoReply))"
proof -
  have h1: "Some ''mallory'' = None \<or> Some ''mallory'' = Some [] \<or>
           (\<exists>t. Some ''mallory'' = Some t \<and> (\<forall>u \<in> set (users (db exampleServer)). address u \<noteq> t))"
    by (simp add: exampleServer_def alice_def bob_def)
  have h2: "''s9'' \<notin> fst ` set (sockets exampleServer)" by (simp add: exampleServer_def)
  have h3: "\<forall>tok. Connect ''s9'' tok \<notin> set [Connect ''s1'' (Some ''bob'')]" by simp
  from failed_authentication_rejects [OF h1 h2] h3 show ?thesis by blast
qed

lemma set_getGroups:
  "set (getGroups s v) = populateGroup (db s) ` {g \<in> set (groups (db s)). \<not> isPrivate g}"
  by (auto simp: getGroups_def Let_def)

lemma public_stays_run:
  assumes "\<exists>g \<in> set (groups (db s)). gid g = i \<and> \<not> isPrivate g"
  shows "\<exists>g \<in> set (groups (db (run s inputs))). gid g = i \<and> \<not> isPrivate g"
  using assms by (rule run_induct) (rule groupsStep_public_stays [OF groupsStep_step])

text \<open>
  Claim C9. A group that \<open>createGroup\<close> creates is appended to the collection with the
  privacy flag false, with its owner as its only member, and it is in every later
  \<open>getGroups\<close> listing of every viewer; and no sequence of inputs changes which groups
  are private.
\<close>

theorem createGroup_public:
  "(createGroup s u data newId now = (s', Some gv) \<longrightarrow>
      (\<exists>g. groups (db s') = groups (db s) @ [g] \<and> gid g = newId \<and> \<not> isPrivate g \<and>
           members g = [uid u] \<and> owner g = uid u \<and> gv = populateGroup (db s') g) \<and>
      \<not> gv_isPrivate gv \<and>
      (\<forall>inputs viewer. newId \<in> gv_id ` set (getGroups (run s' inputs) viewer))) \<and>
   map gid (filter isPrivate (groups (db (run s inputs)))) = map gid (filter isPrivate (groups (db s)))"
proof (intro conjI impI)
  assume c: "createGroup s u data newId now = (s', Some gv)"
  define g where "g = \<lparr>gid = newId, name = cg_name data, description = cg_description data,
                 owner = uid u, members = [uid u], isPrivate = False, g_createdAt = now\<rparr>"
  from c have s': "s' = s\<lparr>db := (db s)\<lparr>groups := groups (db s) @ [g]\<rparr>\<rparr>" and gv: "gv = populateGroup (db s') g"
    by (auto simp: createGroup_def Let_def g_def split: if_splits)
  show "\<exists>g. groups (db s') = groups (db s) @ [g] \<and> gid g = newId \<and> \<not> isPrivate g \<and>
           members g = [uid u] \<and> owner g = uid u \<and> gv = populateGroup (db s') g"
    using s' gv by (intro exI [of _ g]) (simp add: g_def)
  show "\<not> gv_isPrivate gv" using gv by (simp add: populateGroup_def g_def)
  have "\<exists>h \<in> set (groups (db s')). gid h = newId \<and> \<not> isPrivate h"
    using s' by (auto simp: g_def)
  then have "\<exists>h \<in> set (groups (db (run s' inputs))). gid h = newId \<and> \<not> isPrivate h" for inputs
    by (rule public_stays_run)
  then show "\<forall>inputs viewer. newId \<in> gv_id ` set (getGroups (run s' inputs) viewer)"
    by (force simp: set_getGroups populateGroup_def)
next
  show "map gid (filter isPrivate (groups (db (run s inputs)))) = map gid (filter isPrivate (groups (db s)))"
    by (rule run_induct) (simp_all add: groupsStep_private [OF groupsStep_step])
qed

theorem createGroup_public_witness:
  "(\<exists>g. groups (db (fst (createGroup exampleServer alice \<lparr>cg_name = ''G2'', cg_description = None\<rparr> 17 9))) =
          groups (db exampleServer) @ [g] \<and> gid g = 17 \<and> \<not> isPrivate g \<and>
          members g = [uid alice] \<and> owner g = uid alice) \<and>
   (\<forall>inputs viewer. 17 \<in> gv_id ` set (getGroups
        (run (fst (createGroup exampleServer alice \<lparr>cg_name = ''G2'', cg_description = None\<rparr> 17 9)) inputs) viewer))"
proof -
  have h: "createGroup exampleServer alice \<lparr>cg_name = ''G2'', cg_description = None\<rparr> 17 9 =
          (fst (createGroup exampleServer alice \<lparr>cg_name = ''G2'', cg_description = None\<rparr> 17 9),
           Some (the (snd (createGroup exampleServer alice \<lparr>cg_name = ''G2'', cg_description = None\<rparr> 17 9))))"
    by code_simp
  from createGroup_public [of exampleServer alice "\<lparr>cg_name = ''G2'', cg_description = None\<rparr>" 17 9
      "fst (createGroup exampleServer alice \<lparr>cg_name = ''G2'', cg_description = None\<rparr> 17 9)"
      "the (snd (createGroup exampleServer alice \<lparr>cg_name = ''G2'', cg_description = None\<rparr> 17 9))"] h
  show ?thesis by blast
qed





section \<open>getGroups\<close>

lemma findUserById_uid: "findUserById d i = Some y \<Longrightarrow> uid y = i"
  by (auto simp: findUserById_def dest: find_Some_mem)

lemma findUserById_known: "i \<in> uid ` set (users d) \<Longrightarrow> \<exists>y. findUserById d i = Some y"
  by (cases "findUserById d i") (auto simp: findUserById_def find_None_iff)

lemma populated_member:
  assumes "uid u \<in> uid ` set (users d)"
  shows "list_ex (\<lambda>member. uid member = uid u) (gv_members (populateGroup d g)) \<longleftrightarrow>
         uid u \<in> set (members g)"
proof
  assume "list_ex (\<lambda>member. uid member = uid u) (gv_members (populateGroup d g))"
  then obtain i y where "i \<in> set (members g)" "findUserById d i = Some y" "uid y = uid u"
    by (auto simp: populateGroup_def list_ex_iff List.map_filter_def)
  then show "uid u \<in> set (members g)" by (auto dest: findUserById_uid)
next
  assume m: "uid u \<in> set (members g)"
  from findUserById_known [OF assms] obtain y where y: "findUserById d (uid u) = Some y" by blast
  then have "uid y = uid u" by (rule findUserById_uid)
  with m y show "list_ex (\<lambda>member. uid member = uid u) (gv_members (populateGroup d g))"
    by (force simp: populateGroup_def list_ex_iff List.map_filter_def)
qed

text \<open>
  Claim C8. For a viewer whose identity is in the User collection, \<open>getGroups\<close> returns
  the stable partition, members first, of a newest-first list of exactly the non-private
  groups: the groups of the viewer come before the others, and inside each part the
  newest-first order of that list is kept.
\<close>

theorem getGroups_partitioned:
  assumes "uid u \<in> uid ` set (users (db s))"
  shows "\<exists>allGroups.
           mset allGroups = mset (filter (\<lambda>g. \<not> isPrivate g) (groups (db s))) \<and>
           sorted_wrt (\<lambda>a b. g_createdAt b \<le> g_createdAt a) allGroups \<and>
           getGroups s u = map (populateGroup (db s))
             (filter (\<lambda>g. uid u \<in> set (members g)) allGroups @
              filter (\<lambda>g. uid u \<notin> set (members g)) allGroups)"
proof -
  define allGroups where
    "allGroups = sort_key (\<lambda>g. - g_createdAt g) (filter (\<lambda>g. \<not> isPrivate g) (groups (db s)))"
  have "sorted (map (\<lambda>g. - g_createdAt g) allGroups)"
    unfolding allGroups_def by (rule sorted_sort_key)
  then have "sorted_wrt (\<lambda>a b. g_createdAt b \<le> g_createdAt a) allGroups"
    by (simp add: sorted_wrt_map)
  moreover have "mset allGroups = mset (filter (\<lambda>g. \<not> isPrivate g) (groups (db s)))"
    unfolding allGroups_def by simp
  moreover have "getGroups s u = map (populateGroup (db s))
             (filter (\<lambda>g. uid u \<in> set (members g)) allGroups @
              filter (\<lambda>g. uid u \<notin> set (members g)) allGroups)"
    by (simp add: getGroups_def Let_def allGroups_def [symmetric] filter_map comp_def
        populated_member [OF assms])
  ultimately show ?thesis by blast
qed

theorem getGroups_partitioned_witness:
  "\<exists>allGroups.
      mset allGroups = mset (filter (\<lambda>g. \<not> isPrivate g) (groups (db exampleServer))) \<and>
      sorted_wrt (\<lambda>a b. g_createdAt b \<le> g_createdAt a) allGroups \<and>
      getGroups exampleServer alice = map (populateGroup (db exampleServer))
        (filter (\<lambda>g. uid alice \<in> set (members g)) allGroups @
         filter (\<lambda>g. uid alice \<notin> set (members g)) allGroups)"
proof -
  have h: "uid alice \<in> uid ` set (users (db exampleServer))" by code_simp
  show ?thesis using getGroups_partitioned [OF h] .
qed


section \<open>Pagination\<close>

subsection \<open>An ObjectId printed and cast back\<close>

lemma hexDigit_hexChar: "d < 16 \<Longrightarrow> hexDigit (hexChar d) = Some d"
proof -
  have "\<forall>d \<in> set [0..<16]. hexDigit (hexChar d) = Some d"
    unfolding hexDigit_def hexChar_def by code_simp
  moreover assume "d < 16"
  ultimately show ?thesis by simp
qed

lemma fromHex_snoc:
  "fromHex acc (cs @ [c]) =
     (case fromHex acc cs of None \<Rightarrow> None
      | Some a \<Rightarrow> (case hexDigit c of None \<Rightarrow> None | Some d \<Rightarrow> Some (16 * a + d)))"
  by (induction cs arbitrary: acc) (auto split: option.splits)

lemma fromHex_toHex: "fromHex acc (toHex k n) = Some (acc * 16 ^ k + n mod 16 ^ k)"
proof (induction k arbitrary: n)
  case 0
  then show ?case by simp
next
  case (Suc k)
  have "n mod (16 * 16 ^ k) = 16 * ((n div 16) mod 16 ^ k) + n mod 16"
    by (simp add: mod_mult2_eq add.commute)
  then show ?case
    by (simp add: fromHex_snoc Suc hexDigit_hexChar algebra_simps)
qed

lemma length_toHex: "length (toHex k n) = k"
  by (induction k arbitrary: n) auto

lemma castObjectId_oidToString: "castObjectId (oidToString w) = Some w"
proof -
  have "unat w < 2 ^ 96" using unsigned_less [of w] by simp
  then have "unat w mod 16 ^ 24 = unat w" by simp
  then show ?thesis
    by (simp add: castObjectId_def oidToString_def length_toHex fromHex_toHex)
qed

lemma oidToString_inj: "oidToString a = oidToString b \<Longrightarrow> a = b"
  by (metis castObjectId_oidToString option.inject)

lemma oidToString_nonempty: "oidToString w \<noteq> []"
  using length_toHex [of 24 "unat w"] by (auto simp: oidToString_def)

lemma castBefore_oidToString: "castBefore (Some (oidToString w)) = Some (Some w)"
  by (simp add: castBefore_def oidToString_nonempty castObjectId_oidToString)

subsection \<open>The walk ends\<close>

lemma those_map_Some:
  "those (map f xs) = Some ys \<longleftrightarrow> (\<forall>x \<in> set xs. f x \<noteq> None) \<and> ys = map (\<lambda>x. the (f x)) xs"
  by (induction xs arbitrary: ys) (auto split: option.splits)

lemma findChats_mem:
  "c \<in> set (findChats d g beforeId) \<Longrightarrow>
     c \<in> set (groupChats d g) \<and> (\<forall>b. beforeId = Some b \<longrightarrow> cid c < b)"
  by (auto simp: findChats_def groupChats_def dest!: in_set_takeD)

lemma formatMessage_id: "formatMessage d c = Some m \<Longrightarrow> msg_id m = oidToString (cid c)"
  by (auto simp: formatMessage_def split: option.splits)

lemma loadMessages_mem:
  assumes "m \<in> set (loadMessages s data)"
  shows "\<exists>g beforeId c. castObjectId (lm_groupId data) = Some g \<and>
           castBefore (lm_before data) = Some beforeId \<and>
           c \<in> set (findChats (db s) g beforeId) \<and> formatMessage (db s) c = Some m"
proof (cases "castObjectId (lm_groupId data)")
  case None
  with assms show ?thesis by (simp add: loadMessages_def)
next
  case g: (Some g)
  show ?thesis
  proof (cases "castBefore (lm_before data)")
    case None
    with g assms show ?thesis by (simp add: loadMessages_def)
  next
    case b: (Some beforeId)
    show ?thesis
    proof (cases "those (map (formatMessage (db s)) (findChats (db s) g beforeId))")
      case None
      with g b assms show ?thesis by (simp add: loadMessages_def)
    next
      case (Some ms)
      with g b assms have "m \<in> set ms" by (simp add: loadMessages_def)
      with Some obtain c where "c \<in> set (findChats (db s) g beforeId)" "formatMessage (db s) c = Some m"
        by (auto simp: those_map_Some)
      with g b show ?thesis by blast
    qed
  qed
qed

lemma cursor_decreases:
  assumes "page = loadMessages s \<lparr>lm_groupId = groupId, lm_before = beforeId\<rparr>" and "page \<noteq> []"
  shows "cursorRank (Some (msg_id (last page))) < cursorRank beforeId"
proof -
  have "last page \<in> set (loadMessages s \<lparr>lm_groupId = groupId, lm_before = beforeId\<rparr>)"
    using assms by simp
  from loadMessages_mem [OF this] obtain g b c where
    b: "castBefore beforeId = Some b" and c: "c \<in> set (findChats (db s) g b)"
    and f: "formatMessage (db s) c = Some (last page)"
    by auto
  have r: "cursorRank (Some (msg_id (last page))) = unat (cid c)"
    using formatMessage_id [OF f] by (simp add: cursorRank_def castBefore_oidToString)
  show ?thesis
  proof (cases b)
    case None
    have "unat (cid c) < 2 ^ 96" using unsigned_less [of "cid c"] by simp
    with None b r show ?thesis by (simp add: cursorRank_def)
  next
    case (Some w)
    with findChats_mem [OF c] have "cid c < w" by simp
    with Some b r show ?thesis by (simp add: cursorRank_def word_less_nat_alt)
  qed
qed

termination walkPages
  by (relation "measure (\<lambda>(s, groupId, beforeId). cursorRank beforeId)") (auto simp: cursor_decreases)

declare walkPages.simps [simp del]

subsection \<open>The pages of a store whose ids grow with the creation times\<close>

lemma findChats_None:
  "findChats d g None = take 50 (sort_key (\<lambda>c. - createdAt c) (groupChats d g))"
  by (simp add: findChats_def groupChats_def)

lemma findChats_Some:
  "findChats d g (Some b) =
     take 50 (filter (\<lambda>c. cid c < b) (sort_key (\<lambda>c. - createdAt c) (groupChats d g)))"
proof -
  have "filter (\<lambda>c. c_groupId c = g \<and> \<not> isDeleted c \<and> cid c < b) (chats d) =
        filter (\<lambda>c. cid c < b) (groupChats d g)"
    by (auto simp: groupChats_def intro: filter_cong)
  then show ?thesis by (simp add: findChats_def filter_sort)
qed

lemma sorted_wrt_strengthen:
  "sorted_wrt P xs \<Longrightarrow> distinct (map f xs) \<Longrightarrow>
   (\<forall>a \<in> set xs. \<forall>b \<in> set xs. P a b \<longrightarrow> f a \<noteq> f b \<longrightarrow> Q a b) \<Longrightarrow> sorted_wrt Q xs"
  by (induction xs) auto

lemma ids_descending:
  assumes "distinct (map cid (groupChats d g))"
    and "\<forall>a \<in> set (groupChats d g). \<forall>b \<in> set (groupChats d g). cid a < cid b \<longrightarrow> createdAt a < createdAt b"
  shows "sorted_wrt (\<lambda>a b. cid b < cid a) (sort_key (\<lambda>c. - createdAt c) (groupChats d g))"
proof -
  let ?S = "sort_key (\<lambda>c. - createdAt c) (groupChats d g)"
  have "sorted (map (\<lambda>c. - createdAt c) ?S)" by (rule sorted_sort_key)
  then have 1: "sorted_wrt (\<lambda>a b. createdAt b \<le> createdAt a) ?S" by (simp add: sorted_wrt_map)
  have "mset (map cid ?S) = mset (map cid (groupChats d g))" by simp
  then have 2: "distinct (map cid ?S)" using assms(1) by (metis mset_eq_imp_distinct_iff)
  show ?thesis
  proof (rule sorted_wrt_strengthen [OF 1 2], intro ballI impI)
    fix a b assume "a \<in> set ?S" "b \<in> set ?S" "createdAt b \<le> createdAt a" "cid a \<noteq> cid b"
    with assms(2) show "cid b < cid a" by (cases "cid a < cid b") (force, simp add: not_less le_less)
  qed
qed

lemma filter_below:
  assumes "sorted_wrt (\<lambda>a b. cid b < cid a) (pre @ c # rest)"
  shows "filter (\<lambda>x. cid x < cid c) (pre @ c # rest) = rest"
proof -
  from assms have a: "\<forall>x \<in> set pre. cid c < cid x" and b: "\<forall>x \<in> set rest. cid x < cid c"
    by (auto simp: sorted_wrt_append)
  have "filter (\<lambda>x. cid x < cid c) pre = []" using a by (auto simp: filter_empty_conv)
  moreover have "filter (\<lambda>x. cid x < cid c) rest = rest" using b by (simp add: filter_id_conv)
  ultimately show ?thesis by simp
qed

lemma concat_pagesOf: "concat (pagesOf xs) = xs"
  by (induction xs rule: pagesOf.induct) (subst pagesOf.simps, simp)

lemma length_page:
  "k < length (pagesOf xs) \<Longrightarrow> length (pagesOf xs ! k) = min 50 (length xs - 50 * k)"
proof (induction xs arbitrary: k rule: pagesOf.induct)
  case (1 xs)
  show ?case
  proof (cases "xs = []")
    case True
    with "1.prems" show ?thesis by (subst pagesOf.simps) (simp add: pagesOf.simps [of "[]"])
  next
    case False
    show ?thesis
    proof (cases k)
      case 0
      with False show ?thesis by (subst pagesOf.simps) simp
    next
      case (Suc j)
      with False "1.prems" have "j < length (pagesOf (drop 50 xs))"
        by (subst (asm) pagesOf.simps) simp
      from "1.IH" [OF False this] Suc False show ?thesis
        by (subst pagesOf.simps) simp
    qed
  qed
qed

lemma page_sub: "p \<in> set (pagesOf xs) \<Longrightarrow> \<exists>k. p = take 50 (drop k xs)"
proof (induction xs rule: pagesOf.induct)
  case (1 xs)
  show ?case
  proof (cases "xs = []")
    case True
    with "1.prems" show ?thesis by (simp add: pagesOf.simps [of "[]"])
  next
    case False
    with "1.prems" have "p = take 50 xs \<or> p \<in> set (pagesOf (drop 50 xs))"
      by (subst (asm) pagesOf.simps) simp
    then show ?thesis
    proof
      assume "p = take 50 xs"
      then show ?thesis by (intro exI [of _ 0]) simp
    next
      assume "p \<in> set (pagesOf (drop 50 xs))"
      from "1.IH" [OF False this] obtain k where "p = take 50 (drop k (drop 50 xs))" by blast
      then show ?thesis by (intro exI [of _ "50 + k"]) (simp add: add.commute)
    qed
  qed
qed

lemma formatMessage_resolves:
  "sender c \<in> uid ` set (users d) \<Longrightarrow> \<exists>m. formatMessage d c = Some m"
  using findUserById_known [of "sender c" d] by (auto simp: formatMessage_def)

lemma page_eq:
  assumes gi: "castObjectId groupId = Some g"
    and senders: "\<forall>c \<in> set (groupChats (db s) g). sender c \<in> uid ` set (users (db s))"
    and desc: "sorted_wrt (\<lambda>a b. cid b < cid a) (sort_key (\<lambda>c. - createdAt c) (groupChats (db s) g))"
    and split: "sort_key (\<lambda>c. - createdAt c) (groupChats (db s) g) = pre @ rest"
  shows "loadMessages s \<lparr>lm_groupId = groupId, lm_before = cursorOf pre\<rparr> =
           map (\<lambda>c. the (formatMessage (db s) c)) (take 50 rest)"
proof -
  have sub: "set rest \<subseteq> set (groupChats (db s) g)"
    using split by (metis set_sort set_append Un_upper2)
  have res: "\<forall>c \<in> set (take 50 rest). formatMessage (db s) c \<noteq> None"
  proof
    fix c assume "c \<in> set (take 50 rest)"
    then have "c \<in> set (groupChats (db s) g)" using sub by (auto dest: in_set_takeD)
    with senders formatMessage_resolves [of c "db s"] show "formatMessage (db s) c \<noteq> None" by auto
  qed
  have "\<exists>b. castBefore (cursorOf pre) = Some b \<and> findChats (db s) g b = take 50 rest"
  proof (cases "pre = []")
    case True
    with split show ?thesis by (simp add: cursorOf_def castBefore_def findChats_None)
  next
    case False
    then obtain pre' c where pre: "pre = pre' @ [c]" by (metis rev_exhaust)
    with desc split have "sorted_wrt (\<lambda>a b. cid b < cid a) (pre' @ c # rest)" by simp
    from filter_below [OF this] pre split
    have "findChats (db s) g (Some (cid c)) = take 50 rest" by (simp add: findChats_Some)
    with pre show ?thesis by (simp add: cursorOf_def castBefore_oidToString)
  qed
  then obtain b where "castBefore (cursorOf pre) = Some b" "findChats (db s) g b = take 50 rest"
    by blast
  moreover have "those (map (formatMessage (db s)) (take 50 rest)) =
                   Some (map (\<lambda>c. the (formatMessage (db s) c)) (take 50 rest))"
    using res by (simp add: those_map_Some)
  ultimately show ?thesis using gi by (simp add: loadMessages_def)
qed

lemma walkPages_eq:
  assumes gi: "castObjectId groupId = Some g"
    and senders: "\<forall>c \<in> set (groupChats (db s) g). sender c \<in> uid ` set (users (db s))"
    and desc: "sorted_wrt (\<lambda>a b. cid b < cid a) (sort_key (\<lambda>c. - createdAt c) (groupChats (db s) g))"
    and split: "sort_key (\<lambda>c. - createdAt c) (groupChats (db s) g) = pre @ rest"
  shows "walkPages s groupId (cursorOf pre) =
           map (map (\<lambda>c. the (formatMessage (db s) c))) (pagesOf rest)"
  using split
proof (induction rest arbitrary: pre rule: pagesOf.induct)
  case (1 rest)
  let ?fmt = "\<lambda>c. the (formatMessage (db s) c)"
  have page: "loadMessages s \<lparr>lm_groupId = groupId, lm_before = cursorOf pre\<rparr> = map ?fmt (take 50 rest)"
    using gi senders desc "1.prems" by (rule page_eq)
  show ?case
  proof (cases "rest = []")
    case True
    with page show ?thesis
      by (subst walkPages.simps, subst pagesOf.simps) simp
  next
    case False
    then have ne: "take 50 rest \<noteq> []" by simp
    let ?c = "last (take 50 rest)"
    have "?c \<in> set (take 50 rest)" using ne by simp
    then have "?c \<in> set rest" by (rule in_set_takeD)
    then have "?c \<in> set (groupChats (db s) g)"
      using "1.prems" by (metis set_sort set_append UnI2)
    with senders formatMessage_resolves [of ?c "db s"]
    obtain m where m: "formatMessage (db s) ?c = Some m" by auto
    have "msg_id (last (map ?fmt (take 50 rest))) = oidToString (cid ?c)"
      using ne m formatMessage_id [OF m] by (simp add: last_map)
    moreover have "cursorOf (pre @ take 50 rest) = Some (oidToString (cid ?c))"
      using ne by (simp add: cursorOf_def)
    moreover have "walkPages s groupId (cursorOf (pre @ take 50 rest)) =
                     map (map ?fmt) (pagesOf (drop 50 rest))"
      using "1.prems" by (intro "1.IH" [OF False]) simp
    ultimately show ?thesis using page ne
      by (subst walkPages.simps, subst pagesOf.simps) (simp add: False)
  qed
qed

text \<open>
  Claim C1, amended. Take a group whose stored, not soft-deleted messages have distinct
  ids, senders that resolve to identities, and creation times that grow strictly with the
  ids. Then the pages of the walk together hold every such message exactly once (no
  duplicate, no gap, N messages in all), page \<open>k\<close> holds \<open>min 50 (N - 50 * k)\<close> of them,
  each page is ordered newest first, and every message of a page loaded with a cursor has
  an id strictly before the cursor.
\<close>

theorem loadMessages_walk:
  assumes "castObjectId groupId = Some g"
    and "distinct (map cid (groupChats (db s) g))"
    and "\<forall>c \<in> set (groupChats (db s) g). sender c \<in> uid ` set (users (db s))"
    and "\<forall>a \<in> set (groupChats (db s) g). \<forall>b \<in> set (groupChats (db s) g).
           cid a < cid b \<longrightarrow> createdAt a < createdAt b"
  shows "distinct (map msg_id (concat (walk s groupId))) \<and>
         mset (map Some (concat (walk s groupId))) =
           mset (map (formatMessage (db s)) (groupChats (db s) g)) \<and>
         length (concat (walk s groupId)) = length (groupChats (db s) g) \<and>
         (\<forall>k < length (walk s groupId).
            length (walk s groupId ! k) = min 50 (length (groupChats (db s) g) - 50 * k)) \<and>
         (\<forall>page \<in> set (walk s groupId). sorted_wrt (\<lambda>a b. msg_createdAt b \<le> msg_createdAt a) page) \<and>
         (\<forall>beforeId b m. castObjectId beforeId = Some b \<and>
            m \<in> set (loadMessages s \<lparr>lm_groupId = groupId, lm_before = Some beforeId\<rparr>) \<longrightarrow>
            (\<exists>i. castObjectId (msg_id m) = Some i \<and> i < b))"
proof -
  let ?M = "groupChats (db s) g"
  let ?S = "sort_key (\<lambda>c. - createdAt c) ?M"
  let ?fmt = "\<lambda>c. the (formatMessage (db s) c)"
  have desc: "sorted_wrt (\<lambda>a b. cid b < cid a) ?S"
    using assms(2,4) by (rule ids_descending)
  have "walkPages s groupId (cursorOf []) = map (map ?fmt) (pagesOf ?S)"
    using assms(1,3) desc by (rule walkPages_eq) simp
  then have w: "walk s groupId = map (map ?fmt) (pagesOf ?S)"
    by (simp add: walk_def cursorOf_def)
  have c: "concat (walk s groupId) = map ?fmt ?S"
    by (simp add: w map_concat [symmetric] concat_pagesOf)
  have res: "\<forall>c \<in> set ?M. formatMessage (db s) c = Some (?fmt c)"
    using assms(3) formatMessage_resolves [of _ "db s"] by fastforce
  have ids: "\<forall>c \<in> set ?M. msg_id (?fmt c) = oidToString (cid c)"
    using res formatMessage_id by blast
  have 1: "distinct (map msg_id (concat (walk s groupId)))"
  proof -
    have "map msg_id (map ?fmt ?S) = map (\<lambda>c. oidToString (cid c)) ?S"
      using ids by simp
    moreover have "mset (map cid ?S) = mset (map cid ?M)" by simp
    then have "distinct (map cid ?S)" using assms(2) by (metis mset_eq_imp_distinct_iff)
    ultimately show ?thesis unfolding c
      by (simp add: distinct_map inj_on_def) (metis oidToString_inj)
  qed
  have 2: "mset (map Some (concat (walk s groupId))) = mset (map (formatMessage (db s)) ?M)"
  proof -
    have "map Some (map ?fmt ?S) = map (formatMessage (db s)) ?S" using res by simp
    then show ?thesis unfolding c by (metis mset_map mset_sort)
  qed
  have 3: "length (concat (walk s groupId)) = length ?M" by (simp add: c)
  have 4: "\<forall>k < length (walk s groupId). length (walk s groupId ! k) = min 50 (length ?M - 50 * k)"
    using length_page [of _ ?S] by (simp add: w)
  have 5: "\<forall>page \<in> set (walk s groupId). sorted_wrt (\<lambda>a b. msg_createdAt b \<le> msg_createdAt a) page"
  proof
    fix page assume "page \<in> set (walk s groupId)"
    then obtain p where p: "p \<in> set (pagesOf ?S)" "page = map ?fmt p" by (auto simp: w)
    from page_sub [OF p(1)] obtain k where k: "p = take 50 (drop k ?S)" by blast
    have "sorted (map (\<lambda>c. - createdAt c) ?S)" by (rule sorted_sort_key)
    then have "sorted_wrt (\<lambda>a b. createdAt b \<le> createdAt a) ?S" by (simp add: sorted_wrt_map)
    then have sp: "sorted_wrt (\<lambda>a b. createdAt b \<le> createdAt a) p"
      unfolding k by (intro sorted_wrt_take sorted_wrt_drop)
    have "set p \<subseteq> set ?M" unfolding k by (auto dest!: in_set_takeD in_set_dropD)
    then have "\<forall>c \<in> set p. msg_createdAt (?fmt c) = createdAt c"
      using res by (fastforce simp: formatMessage_def split: option.splits)
    with sp show "sorted_wrt (\<lambda>a b. msg_createdAt b \<le> msg_createdAt a) page"
      unfolding p(2) sorted_wrt_map by (auto elim: sorted_wrt_mono_rel [rotated])
  qed
  have 6: "\<forall>beforeId b m. castObjectId beforeId = Some b \<and>
            m \<in> set (loadMessages s \<lparr>lm_groupId = groupId, lm_before = Some beforeId\<rparr>) \<longrightarrow>
            (\<exists>i. castObjectId (msg_id m) = Some i \<and> i < b)"
  proof (intro allI impI, elim conjE)
    fix beforeId b m
    assume b: "castObjectId beforeId = Some b"
      and m: "m \<in> set (loadMessages s \<lparr>lm_groupId = groupId, lm_before = Some beforeId\<rparr>)"
    have "beforeId \<noteq> []" using b by (auto simp: castObjectId_def)
    then have cb: "castBefore (Some beforeId) = Some (Some b)" using b by (simp add: castBefore_def)
    from loadMessages_mem [OF m] cb obtain g' c where
      "c \<in> set (findChats (db s) g' (Some b))" "formatMessage (db s) c = Some m" by auto
    then show "\<exists>i. castObjectId (msg_id m) = Some i \<and> i < b"
      using findChats_mem [of c "db s" g' "Some b"] formatMessage_id [of "db s" c m]
      by (simp add: castObjectId_oidToString)
  qed
  from 1 2 3 4 5 6 show ?thesis by blast
qed

theorem loadMessages_walk_witness:
  "distinct (map msg_id (concat (walk exampleServer ''000000000000000000000010''))) \<and>
   length (concat (walk exampleServer ''000000000000000000000010'')) = 2"
proof -
  have h1: "castObjectId ''000000000000000000000010'' = Some 16" by code_simp
  have h2: "distinct (map cid (groupChats (db exampleServer) 16))" by code_simp
  have h3: "\<forall>c \<in> set (groupChats (db exampleServer) 16). sender c \<in> uid ` set (users (db exampleServer))"
    by code_simp
  have h4: "\<forall>a \<in> set (groupChats (db exampleServer) 16). \<forall>b \<in> set (groupChats (db exampleServer) 16).
           cid a < cid b \<longrightarrow> createdAt a < createdAt b"
    by code_simp
  have n: "length (groupChats (db exampleServer) 16) = 2" by code_simp
  show ?thesis using loadMessages_walk [OF h1 h2 h3 h4] n by simp
qed

text \<open>Without the agreement of ids and creation times the claim fails. In the skewed store
  the walk returns a message twice; and a client that passes the least id of the first
  page gets an empty second page although the first page did not hold message 2.\<close>

theorem loadMessages_walk_counterexample:
  "castObjectId ''000000000000000000000001'' = Some 1 \<and>
   length (groupChats (db skewedServer) 1) = 51 \<and>
   length (concat (walk skewedServer ''000000000000000000000001'')) = 53 \<and>
   \<not> distinct (map msg_id (concat (walk skewedServer ''000000000000000000000001''))) \<and>
   ''000000000000000000000001'' \<in> set (map msg_id (loadMessages skewedServer
       \<lparr>lm_groupId = ''000000000000000000000001'', lm_before = None\<rparr>)) \<and>
   ''000000000000000000000002'' \<notin> set (map msg_id (loadMessages skewedServer
       \<lparr>lm_groupId = ''000000000000000000000001'', lm_before = None\<rparr>)) \<and>
   loadMessages skewedServer
       \<lparr>lm_groupId = ''000000000000000000000001'', lm_before = Some ''000000000000000000000001''\<rparr> = []"
  by code_simp

end
